theory Spec2Isabelle
  imports Complex_Main "HOL-Library.Word" "HOL-Library.Sublist"
begin

unbundle bit_operations_syntax

section \<open>JavaScript values\<close>

text \<open>
  A JavaScript string is a sequence of UTF-16 code units; \<open>length\<close> counts code units,
  as \<^verbatim>\<open>String.prototype.length\<close> does.
\<close>

type_synonym cu = "16 word"
type_synonym jstring = "cu list"

definition asc :: "string \<Rightarrow> jstring" where
  \<comment> \<open>the code units of an ASCII literal of the source\<close>
  "asc s = map (\<lambda>c. of_nat (of_char c)) s"

text \<open>
  Numbers that \<^verbatim>\<open>JSON.parse\<close> can produce: a finite double (a rational; \<open>+0\<close> and
  \<open>-0\<close> are one value here, as they are for \<^verbatim>\<open>Set\<close> membership) or an infinity
  (from a literal such as \<^verbatim>\<open>1e999\<close>).
\<close>

datatype jsnum = Finite rat | PosInfinity | NegInfinity

datatype jsval =
    JUndefined
  | JNull
  | JBool bool
  | JNumber jsnum
  | JString jstring
  | JArray "jsval list"
  | JObject "(jstring \<times> jsval) list"
    \<comment> \<open>own properties of a parsed object, one entry per key\<close>

datatype error = TypeError | SyntaxError | Thrown jsval

text \<open>The state a promise settles in.\<close>

datatype 'a settled = Fulfilled 'a | Rejected jsval

section \<open>executeBulkParallel (src/services/gemini.ts, lines 155-165)\<close>

text \<open>
  A task of the source is an \<^verbatim>\<open>async\<close> closure: calling it always yields a promise,
  which later settles. The model takes each task as the state its promise settles in.
  \<^verbatim>\<open>t().catch(e => null)\<close> turns a rejection into fulfilment with \<^verbatim>\<open>null\<close>.
\<close>

definition catch_null :: "jsval settled \<Rightarrow> jsval settled" where
  "catch_null p = (case p of Fulfilled v \<Rightarrow> Fulfilled v | Rejected e \<Rightarrow> Fulfilled JNull)"

text \<open>
  \<^verbatim>\<open>Promise.all\<close>: fulfilled with all values, in the order of the argument, when every
  promise is fulfilled; rejected as soon as one is rejected (the model, which has no
  clock, names the first rejected one in argument order).
\<close>

fun promise_all :: "'a settled list \<Rightarrow> 'a list settled" where
  "promise_all [] = Fulfilled []"
| "promise_all (Rejected e # ps) = Rejected e"
| "promise_all (Fulfilled v # ps) =
     (case promise_all ps of Rejected e \<Rightarrow> Rejected e | Fulfilled vs \<Rightarrow> Fulfilled (v # vs))"

definition executeBulkParallel :: "jsval settled list \<Rightarrow> nat \<Rightarrow> jsval list settled" where
  \<comment> \<open>the parameter \<open>concurrency\<close> is not read by the body, as in the source\<close>
  "executeBulkParallel tasks concurrency =
     (case promise_all (map (\<lambda>t. catch_null t) tasks) of
        Rejected e \<Rightarrow> Rejected e
      | Fulfilled results \<Rightarrow> Fulfilled (filter (\<lambda>r. r \<noteq> JNull) results))"

text \<open>The values of the fulfilled tasks, in task order (the wording of the specification).\<close>

fun fulfilled_values :: "'a settled list \<Rightarrow> 'a list" where
  "fulfilled_values [] = []"
| "fulfilled_values (Fulfilled v # ps) = v # fulfilled_values ps"
| "fulfilled_values (Rejected e # ps) = fulfilled_values ps"

subsection \<open>Tasks in flight\<close>

text \<open>
  \<^verbatim>\<open>tasks.map(t => t().catch(...))\<close> calls every task in turn inside one synchronous
  \<^verbatim>\<open>map\<close>; a task of \<^verbatim>\<open>fetchLessonContent\<close> reaches its \<^verbatim>\<open>fetch\<close> before its first
  suspension, so each call puts one request in flight, and no promise can settle before
  the \<^verbatim>\<open>map\<close> has returned. The launch phase is therefore the following trace.
\<close>

datatype event = Started nat | Settled nat

fun in_flight :: "event list \<Rightarrow> int" where
  "in_flight [] = 0"
| "in_flight (Started i # es) = in_flight es + 1"
| "in_flight (Settled i # es) = in_flight es - 1"

definition launch_trace :: "jsval settled list \<Rightarrow> nat \<Rightarrow> event list" where
  \<comment> \<open>the parameter \<open>concurrency\<close> is not read, as in the source\<close>
  "launch_trace tasks concurrency = map Started [0..<length tasks]"

text \<open>
  A whole run: the launch, then the promises settling in an order \<open>settle_order\<close> that
  the network decides.
\<close>

definition run_trace :: "jsval settled list \<Rightarrow> nat \<Rightarrow> nat list \<Rightarrow> event list" where
  "run_trace tasks concurrency settle_order =
     launch_trace tasks concurrency @ map Settled settle_order"

section \<open>Bulk MCQ generation (src/services/gemini.ts, lines 562-595)\<close>

text \<open>\<^verbatim>\<open>Array.prototype.flat()\<close> with the default depth 1.\<close>

fun flat :: "jsval list \<Rightarrow> jsval list" where
  "flat [] = []"
| "flat (JArray xs # rs) = xs @ flat rs"
| "flat (r # rs) = r # flat rs"

text \<open>
  Keys of the \<^verbatim>\<open>Set\<close> named \<^verbatim>\<open>seen\<close>. A \<^verbatim>\<open>Set\<close> compares primitives by value and
  objects by reference. Every object under an item comes from its own \<^verbatim>\<open>JSON.parse\<close>
  node, so the reference of the \<^verbatim>\<open>question\<close> value of the item at merged position \<open>i\<close>
  is named by \<open>i\<close>.
\<close>

datatype key = KUndefined | KNull | KBool bool | KNumber jsnum | KString jstring | KRef nat

fun key_of :: "nat \<Rightarrow> jsval \<Rightarrow> key" where
  "key_of i JUndefined = KUndefined"
| "key_of i JNull = KNull"
| "key_of i (JBool b) = KBool b"
| "key_of i (JNumber n) = KNumber n"
| "key_of i (JString s) = KString s"
| "key_of i (JArray xs) = KRef i"
| "key_of i (JObject fs) = KRef i"

text \<open>
  \<^verbatim>\<open>q.question\<close>: a \<^verbatim>\<open>TypeError\<close> on \<^verbatim>\<open>null\<close> and \<^verbatim>\<open>undefined\<close>; the own property
  of an object; \<^verbatim>\<open>undefined\<close> on an array or a primitive, which have no such property.
\<close>

fun question :: "jsval \<Rightarrow> error + jsval" where
  "question JUndefined = Inl TypeError"
| "question JNull = Inl TypeError"
| "question (JObject fs) =
     (case map_of fs (asc ''question'') of None \<Rightarrow> Inr JUndefined | Some v \<Rightarrow> Inr v)"
| "question q = Inr JUndefined"

text \<open>
  The \<^verbatim>\<open>filter\<close> callback of lines 589-593, threaded through the list with the set
  \<open>seen\<close> and the position \<open>i\<close> of the item.
\<close>

fun filter_seen :: "key set \<Rightarrow> nat \<Rightarrow> jsval list \<Rightarrow> error + jsval list" where
  "filter_seen seen i [] = Inr []"
| "filter_seen seen i (q # qs) =
     (case question q of
        Inl e \<Rightarrow> Inl e
      | Inr v \<Rightarrow>
          (let duplicate = (key_of i v \<in> seen);
               seen' = insert (key_of i v) seen
           in case filter_seen seen' (Suc i) qs of
                Inl e \<Rightarrow> Inl e
              | Inr rest \<Rightarrow> Inr (if \<not> duplicate then q # rest else rest)))"

definition slice0 :: "nat \<Rightarrow> 'a list \<Rightarrow> 'a list" where
  \<comment> \<open>\<^verbatim>\<open>if (data.length > effectiveCount) data = data.slice(0, effectiveCount)\<close>\<close>
  "slice0 effectiveCount data =
     (if length data > effectiveCount then take effectiveCount data else data)"

definition bulk_mcq :: "nat \<Rightarrow> jsval settled list \<Rightarrow> error + jsval list" where
  \<comment> \<open>lines 585-595; \<open>tasks\<close> are the sub-batch tasks, \<open>effectiveCount\<close> a whole number\<close>
  "bulk_mcq effectiveCount tasks =
     (case executeBulkParallel tasks 50 of
        Rejected e \<Rightarrow> Inl (Thrown e)
      | Fulfilled allResults \<Rightarrow>
          (case filter_seen {} 0 (flat allResults) of
             Inl e \<Rightarrow> Inl e
           | Inr data \<Rightarrow> Inr (slice0 effectiveCount data)))"

text \<open>
  The specification's wording, on a sequence of items with their keys: walk the sequence
  in order and keep an item only if its key has not been seen before in this walk.
\<close>

definition first_occurrences :: "('k \<times> 'a) list \<Rightarrow> 'a list" where
  "first_occurrences kxs =
     map (\<lambda>i. snd (kxs ! i))
       (filter (\<lambda>i. fst (kxs ! i) \<notin> fst ` set (take i kxs)) [0..<length kxs])"

text \<open>The merged sequence of a run, and the key of each of its items.\<close>

definition merged :: "jsval settled list \<Rightarrow> jsval list" where
  "merged tasks = flat (filter (\<lambda>r. r \<noteq> JNull) (fulfilled_values tasks))"

fun keyed_from :: "nat \<Rightarrow> jsval list \<Rightarrow> (key \<times> jsval) list" where
  "keyed_from i [] = []"
| "keyed_from i (q # qs) =
     ((case question q of Inr v \<Rightarrow> key_of i v | Inl e \<Rightarrow> KUndefined), q) # keyed_from (Suc i) qs"

definition keyed :: "jsval list \<Rightarrow> (key \<times> jsval) list" where
  "keyed qs = keyed_from 0 qs"

text \<open>An item without a \<^verbatim>\<open>question\<close> property: reading the property gives \<^verbatim>\<open>undefined\<close>.\<close>

definition keyless :: "jsval \<Rightarrow> bool" where
  "keyless q = (question q = Inr JUndefined)"

text \<open>The walk of \<open>first_occurrences\<close> as a recursion, starting from a set of keys already seen.\<close>

fun unseen :: "'k set \<Rightarrow> ('k \<times> 'a) list \<Rightarrow> 'a list" where
  "unseen seen [] = []"
| "unseen seen ((k, x) # kxs) =
     (if k \<in> seen then unseen (insert k seen) kxs else x # unseen (insert k seen) kxs)"

section \<open>TextDecoder (the platform's UTF-8 decoder, in streaming mode)\<close>

text \<open>
  \<^verbatim>\<open>new TextDecoder()\<close> and \<^verbatim>\<open>decoder.decode(value, { stream: true })\<close> are the
  platform's. They are modelled after the UTF-8 decoder of the WHATWG Encoding Standard:
  a state machine that reads one byte at a time, keeps an unfinished sequence in its state
  between calls, replaces a malformed sequence by \<open>U+FFFD\<close>, and drops one leading byte
  order mark. The source never makes the final call without \<^verbatim>\<open>stream\<close>, so an unfinished
  sequence at the end of the body is never flushed.
\<close>

type_synonym byte = "8 word"

record utf8_decoder =
  code_point :: nat
  bytes_seen :: nat
  bytes_needed :: nat
  lower_boundary :: byte
  upper_boundary :: byte
  bom_seen :: bool

definition new_TextDecoder :: utf8_decoder where
  "new_TextDecoder =
     \<lparr>code_point = 0, bytes_seen = 0, bytes_needed = 0,
      lower_boundary = 0x80, upper_boundary = 0xBF, bom_seen = False\<rparr>"

definition utf16 :: "nat \<Rightarrow> jstring" where
  \<comment> \<open>the code units of a code point\<close>
  "utf16 cp =
     (if cp < 0x10000 then [of_nat cp]
      else [of_nat (0xD800 + (cp - 0x10000) div 0x400),
            of_nat (0xDC00 + (cp - 0x10000) mod 0x400)])"

definition emit :: "utf8_decoder \<Rightarrow> nat \<Rightarrow> utf8_decoder \<times> jstring" where
  \<comment> \<open>output of one code point; the first one is dropped when it is the byte order mark\<close>
  "emit d cp =
     (if \<not> bom_seen d \<and> cp = 0xFEFF then (d\<lparr>bom_seen := True\<rparr>, [])
      else (d\<lparr>bom_seen := True\<rparr>, utf16 cp))"

definition reset :: "utf8_decoder \<Rightarrow> utf8_decoder" where
  "reset d =
     d\<lparr>code_point := 0, bytes_seen := 0, bytes_needed := 0,
       lower_boundary := 0x80, upper_boundary := 0xBF\<rparr>"

definition lead_byte :: "utf8_decoder \<Rightarrow> byte \<Rightarrow> utf8_decoder \<times> jstring" where
  \<comment> \<open>a byte read while no sequence is open\<close>
  "lead_byte d b =
     (if b \<le> 0x7F then emit d (unat b)
      else if 0xC2 \<le> b \<and> b \<le> 0xDF then
        (d\<lparr>bytes_needed := 1, code_point := unat (b AND 0x1F)\<rparr>, [])
      else if 0xE0 \<le> b \<and> b \<le> 0xEF then
        (d\<lparr>lower_boundary := (if b = 0xE0 then 0xA0 else lower_boundary d),
           upper_boundary := (if b = 0xED then 0x9F else upper_boundary d),
           bytes_needed := 2, code_point := unat (b AND 0xF)\<rparr>, [])
      else if 0xF0 \<le> b \<and> b \<le> 0xF4 then
        (d\<lparr>lower_boundary := (if b = 0xF0 then 0x90 else lower_boundary d),
           upper_boundary := (if b = 0xF4 then 0x8F else upper_boundary d),
           bytes_needed := 3, code_point := unat (b AND 0x7)\<rparr>, [])
      else emit d 0xFFFD)"

definition decode_byte :: "utf8_decoder \<Rightarrow> byte \<Rightarrow> utf8_decoder \<times> jstring" where
  "decode_byte d b =
     (if bytes_needed d = 0 then lead_byte d b
      else if \<not> (lower_boundary d \<le> b \<and> b \<le> upper_boundary d) then
        \<comment> \<open>malformed: \<open>U+FFFD\<close>, and the byte is read again with no sequence open\<close>
        (let (d1, out1) = emit (reset d) 0xFFFD;
             (d2, out2) = lead_byte d1 b
         in (d2, out1 @ out2))
      else
        (let d' = d\<lparr>lower_boundary := 0x80, upper_boundary := 0xBF,
                    code_point := code_point d * 64 + unat (b AND 0x3F),
                    bytes_seen := bytes_seen d + 1\<rparr>
         in if bytes_seen d' \<noteq> bytes_needed d' then (d', [])
            else emit (reset d') (code_point d')))"

fun decode :: "utf8_decoder \<Rightarrow> byte list \<Rightarrow> utf8_decoder \<times> jstring" where
  \<comment> \<open>\<^verbatim>\<open>decoder.decode(value, { stream: true })\<close>: the new state and the decoded text\<close>
  "decode d [] = (d, [])"
| "decode d (b # bs) =
     (let (d1, out1) = decode_byte d b;
          (d2, out2) = decode d1 bs
      in (d2, out1 @ out2))"

section \<open>The stream decoder of callGeminiApi (src/services/gemini.ts, lines 28-92)\<close>

definition QUOTE :: cu where "QUOTE = 0x22"
definition BACKSLASH :: cu where "BACKSLASH = 0x5C"

definition hdr :: jstring where
  \<comment> \<open>the seven characters \<^verbatim>\<open>"text":\<close> the pattern starts with\<close>
  "hdr = [0x22, 0x74, 0x65, 0x78, 0x74, 0x22, 0x3A]"

definition is_ws :: "cu \<Rightarrow> bool" where
  \<comment> \<open>the class \<^verbatim>\<open>\s\<close> of a JavaScript regular expression\<close>
  "is_ws c =
     (c \<in> {0x09, 0x0A, 0x0B, 0x0C, 0x0D, 0x20, 0xA0, 0x1680, 0x2028, 0x2029,
            0x202F, 0x205F, 0x3000, 0xFEFF}
      \<or> (0x2000 \<le> c \<and> c \<le> 0x200A))"

definition is_line_terminator :: "cu \<Rightarrow> bool" where
  \<comment> \<open>what \<^verbatim>\<open>.\<close> does not match (the pattern has no \<^verbatim>\<open>s\<close> flag)\<close>
  "is_line_terminator c = (c \<in> {0x0A, 0x0D, 0x2028, 0x2029})"

text \<open>
  The group \<^verbatim>\<open>((?:[^"\\]|\\.)*)\<close> followed by \<^verbatim>\<open>"\<close>. Neither alternative can start
  at a quote, and only the second at a backslash, so giving back an iteration of the star
  never finds a quote: the greedy run is the only way to match, and the function follows
  it. The result is the captured group and what follows the closing quote.
\<close>

fun body_end :: "jstring \<Rightarrow> (jstring \<times> jstring) option" where
  "body_end [] = None"
| "body_end (c # cs) =
     (if c = QUOTE then Some ([], cs)
      else if c = BACKSLASH then
        (case cs of
           [] \<Rightarrow> None
         | d # ds \<Rightarrow>
             if is_line_terminator d then None
             else map_option (\<lambda>(b, r). (c # d # b, r)) (body_end ds))
      else map_option (\<lambda>(b, r). (c # b, r)) (body_end cs))"

definition match_at :: "jstring \<Rightarrow> (jstring \<times> jstring) option" where
  \<comment> \<open>one attempt of \<^verbatim>\<open>/"text":\s*"((?:[^"\\]|\\.)*)"/\<close> at the start of \<open>s\<close>\<close>
  "match_at s =
     (if prefix hdr s then
        (case dropWhile is_ws (drop (length hdr) s) of
           [] \<Rightarrow> None
         | q # r \<Rightarrow> if q = QUOTE then body_end r else None)
      else None)"

text \<open>
  The loop \<^verbatim>\<open>while ((match = regex.exec(buffer)) !== null)\<close> of a pattern with the
  \<^verbatim>\<open>g\<close> flag: the leftmost match from the current position, then on from its end.
  The result is the list of the captured groups \<^verbatim>\<open>match[1]\<close>.
\<close>

function regex_exec_all :: "jstring \<Rightarrow> jstring list" where
  "regex_exec_all s =
     (if s = [] then []
      else case match_at s of
             Some (b, rest) \<Rightarrow> b # regex_exec_all rest
           | None \<Rightarrow> regex_exec_all (tl s))"
  by pat_completeness auto
termination
proof (relation "measure length")
  show "wf (measure length)" by simp
next
  fix s :: jstring and x2 b rest
  assume ne: "s \<noteq> []" and m: "match_at s = Some x2" and x2: "(b, rest) = x2"
  have be: "length r < Suc (length cs)" if "body_end cs = Some (b', r)" for cs b' r
    using that
  proof (induction cs arbitrary: b' r rule: body_end.induct)
    case 1
    then show ?case by simp
  next
    case (2 c cs)
    show ?case
    proof (cases "c = QUOTE")
      case True
      with 2 show ?thesis by simp
    next
      case nq: False
      show ?thesis
      proof (cases "c = BACKSLASH")
        case True
        with nq 2 show ?thesis
          by (fastforce split: list.splits if_splits)
      next
        case False
        with nq 2 show ?thesis by fastforce
      qed
    qed
  qed
  from m x2 obtain q r where
    dw: "dropWhile is_ws (drop (length hdr) s) = q # r" and b: "body_end r = Some (b, rest)"
    by (auto simp: match_at_def split: if_splits list.splits)
  have "length (q # r) \<le> length (drop (length hdr) s)"
    unfolding dw [symmetric] by (rule length_dropWhile_le)
  then have "length r < length s" by simp
  with be [OF b] have "length rest < length s" by simp
  then show "(rest, s) \<in> measure length" by simp
next
  fix s :: jstring
  assume "s \<noteq> []"
  then show "(tl s, s) \<in> measure length" by (cases s) simp_all
qed

declare regex_exec_all.simps [simp del]

text \<open>
  \<^verbatim>\<open>JSON.parse(`"${match[1]}"`)\<close>: the text between the added quotes read as the body of
  one JSON string literal. \<open>None\<close> is the \<^verbatim>\<open>SyntaxError\<close>: a bare quote (the literal
  would end early, with text left over), a control character, a bad or unfinished escape.
\<close>

definition hex_digit :: "cu \<Rightarrow> cu option" where
  "hex_digit c =
     (if 0x30 \<le> c \<and> c \<le> 0x39 then Some (c - 0x30)
      else if 0x41 \<le> c \<and> c \<le> 0x46 then Some (c - 0x41 + 10)
      else if 0x61 \<le> c \<and> c \<le> 0x66 then Some (c - 0x61 + 10)
      else None)"

definition hex4 :: "cu \<Rightarrow> cu \<Rightarrow> cu \<Rightarrow> cu \<Rightarrow> cu option" where
  "hex4 a b c d =
     (case (hex_digit a, hex_digit b, hex_digit c, hex_digit d) of
        (Some x, Some y, Some z, Some w) \<Rightarrow> Some (((x * 16 + y) * 16 + z) * 16 + w)
      | _ \<Rightarrow> None)"

definition simple_escape :: "cu \<Rightarrow> cu option" where
  "simple_escape c =
     (if c = 0x22 then Some 0x22
      else if c = 0x5C then Some 0x5C
      else if c = 0x2F then Some 0x2F
      else if c = 0x62 then Some 0x08
      else if c = 0x66 then Some 0x0C
      else if c = 0x6E then Some 0x0A
      else if c = 0x72 then Some 0x0D
      else if c = 0x74 then Some 0x09
      else None)"

fun unescape :: "jstring \<Rightarrow> jstring option" where
  "unescape [] = Some []"
| "unescape (c # cs) =
     (if c = QUOTE then None
      else if c = BACKSLASH then
        (case cs of
           [] \<Rightarrow> None
         | d # ds \<Rightarrow>
             if d = 0x75 then
               (case ds of
                  h1 # h2 # h3 # h4 # r \<Rightarrow>
                    (case hex4 h1 h2 h3 h4 of
                       None \<Rightarrow> None
                     | Some u \<Rightarrow> map_option ((#) u) (unescape r))
                | _ \<Rightarrow> None)
             else
               (case simple_escape d of
                  None \<Rightarrow> None
                | Some e \<Rightarrow> map_option ((#) e) (unescape ds)))
      else if c < 0x20 then None
      else map_option ((#) c) (unescape cs))"

definition parsed :: "jstring \<Rightarrow> jstring" where
  \<comment> \<open>\<^verbatim>\<open>try { extractedText += JSON.parse(...) } catch(e) {}\<close>: what one match adds\<close>
  "parsed b = (case unescape b of Some t \<Rightarrow> t | None \<Rightarrow> [])"

definition extractedText :: "jstring \<Rightarrow> jstring" where
  \<comment> \<open>lines 68-76: \<^verbatim>\<open>extractedText\<close> after the inner loop\<close>
  "extractedText buffer = concat (map parsed (regex_exec_all buffer))"

text \<open>
  The state of the outer loop: the decoder, \<^verbatim>\<open>buffer\<close>, \<^verbatim>\<open>fullText\<close>, and the
  arguments of the calls of \<^verbatim>\<open>onChunk\<close> made so far, oldest first. (\<^verbatim>\<open>tempBuffer\<close> of
  lines 49-51 is computed and never read: the pattern runs on \<^verbatim>\<open>buffer\<close>.)
\<close>

record stream_state =
  decoder :: utf8_decoder
  buffer :: jstring
  fullText :: jstring
  onChunk_calls :: "jstring list"

definition stream_start :: stream_state where
  "stream_start =
     \<lparr>decoder = new_TextDecoder, buffer = [], fullText = [], onChunk_calls = []\<rparr>"

definition on_read :: "stream_state \<Rightarrow> byte list \<Rightarrow> stream_state" where
  \<comment> \<open>one turn of the loop of lines 34-90, for a chunk \<open>value\<close> that \<^verbatim>\<open>reader.read()\<close> gave\<close>
  "on_read st val =
     (let (d, chunk) = decode (decoder st) val;
          buffer' = buffer st @ chunk;
          extracted = extractedText buffer'
      in if length extracted > length (fullText st) then
           st\<lparr>decoder := d, buffer := buffer', fullText := extracted,
              onChunk_calls := onChunk_calls st @ [extracted]\<rparr>
         else st\<lparr>decoder := d, buffer := buffer'\<rparr>)"

definition stream_run :: "byte list list \<Rightarrow> stream_state" where
  \<comment> \<open>the loop over the chunks of the body, until \<^verbatim>\<open>done\<close>\<close>
  "stream_run chunks = foldl on_read stream_start chunks"

definition callGeminiApi_stream :: "byte list list \<Rightarrow> jstring" where
  \<comment> \<open>\<^verbatim>\<open>return fullText\<close>\<close>
  "callGeminiApi_stream chunks = fullText (stream_run chunks)"

definition bytes :: "string \<Rightarrow> byte list" where
  \<comment> \<open>the bytes of an ASCII text\<close>
  "bytes s = map (\<lambda>c. of_nat (of_char c)) s"

text \<open>
  Shapes of a decoded body. A text field is written \<^verbatim>\<open>"text":\<close>, white space, and a
  quoted body. The body is made of characters other than the quote and the backslash, and
  of pairs of a backslash and a character that is not a line terminator (line feed,
  carriage return, \<open>U+2028\<close>, \<open>U+2029\<close>): this is \<open>body_ok\<close>. Around the fields
  stands filler in which \<^verbatim>\<open>"text":\<close> does not occur.
\<close>

fun body_ok :: "jstring \<Rightarrow> bool" where
  "body_ok [] = True"
| "body_ok (c # cs) =
     (if c = QUOTE then False
      else if c = BACKSLASH then
        (case cs of [] \<Rightarrow> False | d # ds \<Rightarrow> \<not> is_line_terminator d \<and> body_ok ds)
      else body_ok cs)"

fun hdr_occurs :: "jstring \<Rightarrow> bool" where
  "hdr_occurs [] = False"
| "hdr_occurs (c # cs) = (prefix hdr (c # cs) \<or> hdr_occurs cs)"

fun render :: "(jstring \<times> jstring \<times> jstring) list \<Rightarrow> jstring \<Rightarrow> jstring" where
  \<comment> \<open>fields given as (filler before, white space, body), and the filler at the end\<close>
  "render [] end_filler = end_filler"
| "render ((f, w, b) # segs) end_filler =
     f @ hdr @ w @ [QUOTE] @ b @ [QUOTE] @ render segs end_filler"

definition text_fields_ok :: "(jstring \<times> jstring \<times> jstring) list \<Rightarrow> jstring \<Rightarrow> bool" where
  "text_fields_ok segs end_filler =
     (list_all (\<lambda>(f, w, b). \<not> hdr_occurs f \<and> list_all is_ws w \<and> body_ok b) segs
      \<and> \<not> hdr_occurs end_filler)"

section \<open>The non-streaming path of callGeminiApi (lines 94-99)\<close>

text \<open>
  Reading a property: a \<^verbatim>\<open>TypeError\<close> on \<^verbatim>\<open>null\<close> and \<^verbatim>\<open>undefined\<close>, the own
  property of an object, \<^verbatim>\<open>undefined\<close> where there is none. \<open>get_field\<close> reads a property
  with one of the names \<^verbatim>\<open>candidates\<close>, \<^verbatim>\<open>content\<close>, \<^verbatim>\<open>parts\<close>, \<^verbatim>\<open>text\<close> (no array,
  string, number or boolean has one), \<open>get_0\<close> reads \<^verbatim>\<open>[0]\<close>.
\<close>

fun get_field :: "string \<Rightarrow> jsval \<Rightarrow> error + jsval" where
  "get_field name JUndefined = Inl TypeError"
| "get_field name JNull = Inl TypeError"
| "get_field name (JObject fs) =
     (case map_of fs (asc name) of None \<Rightarrow> Inr JUndefined | Some v \<Rightarrow> Inr v)"
| "get_field name v = Inr JUndefined"

fun get_0 :: "jsval \<Rightarrow> error + jsval" where
  "get_0 JUndefined = Inl TypeError"
| "get_0 JNull = Inl TypeError"
| "get_0 (JObject fs) =
     (case map_of fs (asc ''0'') of None \<Rightarrow> Inr JUndefined | Some v \<Rightarrow> Inr v)"
| "get_0 (JArray xs) = (case xs of [] \<Rightarrow> Inr JUndefined | x # _ \<Rightarrow> Inr x)"
| "get_0 (JString s) = (case s of [] \<Rightarrow> Inr JUndefined | c # _ \<Rightarrow> Inr (JString [c]))"
| "get_0 v = Inr JUndefined"

definition then_get :: "error + jsval \<Rightarrow> (jsval \<Rightarrow> error + jsval) \<Rightarrow> error + jsval" where
  "then_get r f = (case r of Inl e \<Rightarrow> Inl e | Inr v \<Rightarrow> f v)"

definition first_candidate_text :: "jsval \<Rightarrow> error + jsval" where
  \<comment> \<open>\<^verbatim>\<open>data.candidates[0].content.parts[0].text\<close>\<close>
  "first_candidate_text data =
     then_get (then_get (then_get (then_get (then_get
       (get_field ''candidates'' data) get_0) (get_field ''content''))
       (get_field ''parts'')) get_0) (get_field ''text'')"

definition callGeminiApi_json :: "jsval \<Rightarrow> jsval" where
  \<comment> \<open>lines 95-99, for the value \<open>data\<close> that \<^verbatim>\<open>response.json()\<close> gave\<close>
  "callGeminiApi_json data =
     (case first_candidate_text data of Inr v \<Rightarrow> v | Inl e \<Rightarrow> JString [])"

section \<open>Sample inputs\<close>

definition mcq :: "string \<Rightarrow> jsval" where
  "mcq s =
     JObject [(asc ''question'', JString (asc s)), (asc ''correctAnswer'', JNumber (Finite 0))]"

definition sample_tasks :: "jsval settled list" where
  \<comment> \<open>three sub-batches, the second failing, the third repeating a question of the first\<close>
  "sample_tasks =
     [Fulfilled (JArray [mcq ''a'', mcq ''b'']),
      Rejected (JString (asc ''Gemini API Error'')),
      Fulfilled (JArray [mcq ''a'', mcq ''c''])]"

definition sample_items :: "jsval list" where
  \<comment> \<open>three items without a \<^verbatim>\<open>question\<close> property among two with one\<close>
  "sample_items =
     [JObject [(asc ''q'', JString (asc ''x''))], mcq ''a'', JString (asc ''y''),
      mcq ''b'', JObject []]"

text \<open>The double quote, for writing the sample texts.\<close>

definition dq :: string where
  "dq = [CHR 0x22]"

text \<open>
  The chunks \<^verbatim>\<open>[{"text":"Hel"\<close> and \<^verbatim>\<open>lo"}]\<close> (the first ends with a quote), and
  the chunks \<^verbatim>\<open>[{"text":"Hel\<close> and \<^verbatim>\<open>lo"}]\<close> of a body split inside the string.
\<close>

definition claim_chunks :: "byte list list" where
  "claim_chunks =
     [bytes (''[{'' @ dq @ ''text'' @ dq @ '':'' @ dq @ ''Hel'' @ dq),
      bytes (''lo'' @ dq @ ''}]'')]"

definition split_chunks :: "byte list list" where
  "split_chunks =
     [bytes (''[{'' @ dq @ ''text'' @ dq @ '':'' @ dq @ ''Hel''),
      bytes (''lo'' @ dq @ ''}]'')]"

text \<open>The body \<^verbatim>\<open>[{"text" : "a"}]\<close>, with a space before the colon.\<close>

definition spaced_chunks :: "byte list list" where
  "spaced_chunks = [bytes (''[{'' @ dq @ ''text'' @ dq @ '' : '' @ dq @ ''a'' @ dq @ ''}]'')]"

text \<open>
  The body \<^verbatim>\<open>"text":"\<close>, the three bytes of the euro sign, \<^verbatim>\<open>"\<close>: in one chunk, and
  split after the first and after the second byte of the sign.
\<close>

definition euro_whole :: "byte list list" where
  "euro_whole = [bytes (dq @ ''text'' @ dq @ '':'' @ dq) @ [0xE2, 0x82, 0xAC] @ bytes dq]"

definition euro_split :: "byte list list" where
  "euro_split = [bytes (dq @ ''text'' @ dq @ '':'' @ dq) @ [0xE2], [0x82], [0xAC] @ bytes dq]"

text \<open>
  The body \<^verbatim>\<open>[{"text": "Hi\n"},{"text":"\x"},{"text":"you"}]\<close> (the second string is no
  JSON string literal), given by its fields and as two chunks split inside a key.
\<close>

definition sample_segs :: "(jstring \<times> jstring \<times> jstring) list" where
  "sample_segs =
     [(asc ''[{'', asc '' '', asc ''Hi'' @ [BACKSLASH] @ asc ''n''),
      (asc ''},{'', [], [BACKSLASH] @ asc ''x''),
      (asc ''},{'', [], asc ''you'')]"

definition sample_stream :: "byte list list" where
  "sample_stream =
     [bytes (''[{'' @ dq @ ''text'' @ dq @ '': '' @ dq @ ''Hi'') @ [0x5C] @ bytes (''n'' @ dq @ ''},{'' @ dq @ ''te''),
      bytes (''xt'' @ dq @ '':'' @ dq) @ [0x5C] @ bytes (''x'' @ dq @ ''},{'' @ dq @ ''text'' @ dq @ '':'' @ dq @ ''you'' @ dq @ ''}]'')]"

text \<open>
  The body \<^verbatim>\<open>"text":"a\<close>, a backslash, a line feed, a backslash, \<^verbatim>\<open>"text":"c"\<close>: the
  backslash before the line feed is no pair the pattern accepts.
\<close>

definition linefeed_chunks :: "byte list list" where
  "linefeed_chunks =
     [bytes (dq @ ''text'' @ dq @ '':'' @ dq @ ''a'') @ [0x5C, 0x0A, 0x5C]
        @ bytes (dq @ ''text'' @ dq @ '':'' @ dq @ ''c'' @ dq)]"

text \<open>The response \<^verbatim>\<open>{"candidates":[{"content":{"parts":[{}],"role":"model"}}]}\<close>.\<close>

definition leaf_missing :: jsval where
  "leaf_missing =
     JObject [(asc ''candidates'',
       JArray [JObject [(asc ''content'',
         JObject [(asc ''parts'', JArray [JObject []]), (asc ''role'', JString (asc ''model''))])]])]"

section \<open>Properties of executeBulkParallel\<close>

lemma promise_all_catch_null:
  "promise_all (map (\<lambda>t. catch_null t) tasks) =
     Fulfilled (map (\<lambda>t. case t of Fulfilled v \<Rightarrow> v | Rejected e \<Rightarrow> JNull) tasks)"
  by (induction tasks) (auto simp: catch_null_def split: settled.splits)

lemma filter_nonnull_results:
  "filter (\<lambda>r. r \<noteq> JNull)
     (map (\<lambda>t. case t of Fulfilled v \<Rightarrow> v | Rejected e \<Rightarrow> JNull) tasks) =
   filter (\<lambda>r. r \<noteq> JNull) (fulfilled_values tasks)"
  by (induction tasks rule: fulfilled_values.induct) auto

lemma executeBulkParallel_eq:
  "executeBulkParallel tasks c = Fulfilled (filter (\<lambda>r. r \<noteq> JNull) (fulfilled_values tasks))"
  by (simp add: executeBulkParallel_def promise_all_catch_null filter_nonnull_results)

lemma fulfilled_values_append:
  "fulfilled_values (a @ b) = fulfilled_values a @ fulfilled_values b"
  by (induction a rule: fulfilled_values.induct) auto

lemma fulfilled_values_Rejected: "fulfilled_values (map Rejected es) = []"
  by (induction es) auto

text \<open>
  Claim C9, as the code has it: for every task list and every value of the concurrency
  argument, executeBulkParallel returns the results of the fulfilled tasks that are not
  \<^verbatim>\<open>null\<close>, in task order, and the result does not depend on the concurrency argument.
\<close>

theorem executeBulkParallel_nonnull_fulfilled:
  "executeBulkParallel tasks c =
     Fulfilled (filter (\<lambda>r. r \<noteq> JNull) (fulfilled_values tasks))
   \<and> executeBulkParallel tasks c = executeBulkParallel tasks c'"
  by (simp add: executeBulkParallel_eq)

text \<open>
  Claim C9 as stated fails: a task that succeeds with \<^verbatim>\<open>null\<close> (a sub-batch whose
  response text is \<^verbatim>\<open>null\<close>) is successful, and its result is not returned.
\<close>

theorem executeBulkParallel_drops_null_result:
  "executeBulkParallel [Fulfilled JNull] 20 \<noteq> Fulfilled (fulfilled_values [Fulfilled JNull])"
  by (simp add: executeBulkParallel_def catch_null_def)

text \<open>
  Claim C4: executeBulkParallel always returns a sequence and never rejects; a failing
  task adds nothing to it and leaves the contributions of the other tasks as they are
  (also after \<^verbatim>\<open>flat()\<close>); when every task fails the sequence is empty.
\<close>

theorem executeBulkParallel_swallows_failures:
  "(\<exists>results. executeBulkParallel tasks c = Fulfilled results)
   \<and> executeBulkParallel (before @ Rejected e # after) c = executeBulkParallel (before @ after) c
   \<and> merged (before @ Rejected e # after) = merged (before @ after)
   \<and> executeBulkParallel (map Rejected es) c = Fulfilled []
   \<and> merged (map Rejected es) = []"
  by (simp add: executeBulkParallel_eq merged_def fulfilled_values_append
      fulfilled_values_Rejected)

lemma in_flight_Started: "in_flight (map Started js) = int (length js)"
  by (induction js) auto

text \<open>
  Claim C3, as the code has it: executeBulkParallel starts every task before it waits for
  any, so at the point of the run where the launch is over all tasks are in flight,
  whatever the ceiling and whatever the order in which they settle later.
\<close>

theorem launch_all_in_flight:
  "in_flight (take (length tasks) (run_trace tasks c settle_order)) = int (length tasks)"
  by (simp add: run_trace_def launch_trace_def in_flight_Started)

text \<open>
  Claim C3 as stated fails: with a ceiling of 2 and 5 tasks, 5 tasks are in flight after
  the fifth event of the run.
\<close>

theorem launch_exceeds_ceiling:
  "\<not> in_flight (take 5 (run_trace (replicate 5 (Fulfilled (JArray []))) 2 [0, 1, 2, 3, 4])) \<le> 2"
  by (simp add: run_trace_def launch_trace_def in_flight_Started)

section \<open>Properties of the bulk MCQ run\<close>

lemma unseen_index:
  "unseen seen kxs =
     map (\<lambda>i. snd (kxs ! i))
       (filter (\<lambda>i. fst (kxs ! i) \<notin> seen \<union> fst ` set (take i kxs)) [0..<length kxs])"
proof (induction kxs arbitrary: seen)
  case Nil
  then show ?case by simp
next
  case (Cons kx kxs)
  obtain k x where kx: "kx = (k, x)" by (cases kx)
  have up: "[0..<length (kx # kxs)] = 0 # map Suc [0..<length kxs]"
    by (simp add: upt_conv_Cons map_Suc_upt del: upt_Suc)
  show ?case
    unfolding up
    by (simp add: kx Cons.IH filter_map comp_def conj_commute conj_left_commute)
qed

lemma first_occurrences_unseen: "first_occurrences kxs = unseen {} kxs"
  by (simp add: first_occurrences_def unseen_index)

lemma filter_seen_unseen:
  "filter_seen seen i qs = Inr r \<Longrightarrow> r = unseen seen (keyed_from i qs)"
proof (induction qs arbitrary: seen i r)
  case Nil
  then show ?case by simp
next
  case (Cons q qs)
  then show ?case
    by (auto simp: Let_def split: sum.splits if_splits)
qed

lemma filter_seen_total:
  "JNull \<notin> set qs \<Longrightarrow> JUndefined \<notin> set qs \<Longrightarrow> \<exists>r. filter_seen seen i qs = Inr r"
proof (induction qs arbitrary: seen i)
  case Nil
  then show ?case by simp
next
  case (Cons q qs)
  then have "\<exists>v. question q = Inr v"
    by (cases q) (auto split: option.splits)
  then obtain v where "question q = Inr v" ..
  moreover from Cons obtain r where "filter_seen (insert (key_of i v) seen) (Suc i) qs = Inr r"
    by fastforce
  ultimately show ?case by (simp add: Let_def)
qed

lemma bulk_mcq_returns:
  assumes "JNull \<notin> set (merged tasks)" and "JUndefined \<notin> set (merged tasks)"
  shows "\<exists>items. bulk_mcq N tasks = Inr items"
proof -
  from filter_seen_total [OF assms] obtain data where
    "filter_seen {} 0 (merged tasks) = Inr data"
    by blast
  then show ?thesis
    by (simp add: bulk_mcq_def executeBulkParallel_eq merged_def)
qed

text \<open>
  Claim C2: the item sequence a bulk MCQ run returns is the first \<open>N\<close> items of the
  merged sub-batch results with every item dropped whose key (its \<^verbatim>\<open>question\<close>) an
  earlier item had; so it has at most \<open>N\<close> items, and when at most \<open>N\<close> items are left
  after the duplicates are dropped, they are returned as they are.
\<close>

theorem bulk_mcq_dedup_truncate:
  assumes "bulk_mcq N tasks = Inr items"
  shows "items = take N (first_occurrences (keyed (merged tasks)))
         \<and> length items \<le> N
         \<and> (length (first_occurrences (keyed (merged tasks))) \<le> N
              \<longrightarrow> items = first_occurrences (keyed (merged tasks)))"
proof -
  from assms obtain data where
    d: "filter_seen {} 0 (merged tasks) = Inr data" and i: "items = slice0 N data"
    by (auto simp: bulk_mcq_def executeBulkParallel_eq merged_def split: sum.splits)
  from d have "data = first_occurrences (keyed (merged tasks))"
    by (simp add: first_occurrences_unseen keyed_def filter_seen_unseen)
  with i show ?thesis by (auto simp: slice0_def)
qed

theorem bulk_mcq_dedup_truncate_witness:
  "bulk_mcq 2 sample_tasks = Inr [mcq ''a'', mcq ''b'']
   \<and> [mcq ''a'', mcq ''b''] = take 2 (first_occurrences (keyed (merged sample_tasks)))
   \<and> bulk_mcq 5 sample_tasks = Inr [mcq ''a'', mcq ''b'', mcq ''c'']
   \<and> length (first_occurrences (keyed (merged sample_tasks))) \<le> 5
   \<and> [mcq ''a'', mcq ''b'', mcq ''c''] = first_occurrences (keyed (merged sample_tasks))"
proof -
  have two: "bulk_mcq 2 sample_tasks = Inr [mcq ''a'', mcq ''b'']"
    by code_simp
  have five: "bulk_mcq 5 sample_tasks = Inr [mcq ''a'', mcq ''b'', mcq ''c'']"
    by code_simp
  have len: "length (first_occurrences (keyed (merged sample_tasks))) \<le> 5"
    using bulk_mcq_dedup_truncate [OF five] by code_simp
  show ?thesis
    using two five len bulk_mcq_dedup_truncate [OF two] bulk_mcq_dedup_truncate [OF five]
    by blast
qed

lemma filter_seen_keyless:
  "filter_seen seen i qs = Inr r \<Longrightarrow>
     filter keyless r = (if KUndefined \<in> seen then [] else take 1 (filter keyless qs))"
proof (induction qs arbitrary: seen i r)
  case Nil
  then show ?case by simp
next
  case (Cons q qs)
  from Cons.prems obtain v rest where
    v: "question q = Inr v" and
    rest: "filter_seen (insert (key_of i v) seen) (Suc i) qs = Inr rest" and
    r: "r = (if key_of i v \<notin> seen then q # rest else rest)"
    by (auto simp: Let_def split: sum.splits)
  note IH = Cons.IH [OF rest]
  have kl: "keyless q \<longleftrightarrow> key_of i v = KUndefined"
    using v by (cases v) (auto simp: keyless_def)
  show ?case
    using IH kl by (auto simp: r)
qed

text \<open>
  Claim C10: in the deduplication step the items without a \<^verbatim>\<open>question\<close> property all
  have the key \<^verbatim>\<open>undefined\<close>; of them, the first in merged order is kept and every
  later one is dropped.
\<close>

theorem keyless_first_survives:
  assumes "filter_seen {} 0 qs = Inr r"
  shows "filter keyless r = take 1 (filter keyless qs)"
  using filter_seen_keyless [OF assms] by simp

theorem keyless_first_survives_witness:
  "filter_seen {} 0 sample_items =
     Inr [JObject [(asc ''q'', JString (asc ''x''))], mcq ''a'', mcq ''b'']
   \<and> filter keyless [JObject [(asc ''q'', JString (asc ''x''))], mcq ''a'', mcq ''b''] =
       take 1 (filter keyless sample_items)
   \<and> filter keyless sample_items =
       [JObject [(asc ''q'', JString (asc ''x''))], JString (asc ''y''), JObject []]"
proof -
  have run: "filter_seen {} 0 sample_items =
      Inr [JObject [(asc ''q'', JString (asc ''x''))], mcq ''a'', mcq ''b'']"
    by code_simp
  have all: "filter keyless sample_items =
      [JObject [(asc ''q'', JString (asc ''x''))], JString (asc ''y''), JObject []]"
    by code_simp
  show ?thesis
    using run all keyless_first_survives [OF run] by blast
qed

section \<open>Properties of the pattern scan\<close>

lemma QUOTE_not_ws: "\<not> is_ws QUOTE"
  by (simp add: is_ws_def QUOTE_def)

lemma body_end_decomp:
  "body_end cs = Some (b, r) \<Longrightarrow> cs = b @ QUOTE # r \<and> body_ok b"
proof (induction cs arbitrary: b r rule: body_end.induct)
  case 1
  then show ?case by simp
next
  case (2 c cs)
  show ?case
  proof (cases "c = QUOTE")
    case True
    with 2 show ?thesis by simp
  next
    case nq: False
    show ?thesis
    proof (cases "c = BACKSLASH")
      case True
      with nq 2 show ?thesis
        by (fastforce split: list.splits if_splits)
    next
      case False
      with nq 2 show ?thesis by fastforce
    qed
  qed
qed

lemma body_end_ok: "body_ok b \<Longrightarrow> body_end (b @ QUOTE # r) = Some (b, r)"
  by (induction b rule: body_ok.induct) (auto split: list.splits if_splits)

lemma dropWhile_ws: "list_all is_ws w \<Longrightarrow> dropWhile is_ws (w @ QUOTE # x) = QUOTE # x"
  by (induction w) (auto simp: QUOTE_not_ws)

lemma match_at_ok:
  "list_all is_ws w \<Longrightarrow> body_ok b \<Longrightarrow> match_at (hdr @ w @ QUOTE # b @ QUOTE # r) = Some (b, r)"
  by (simp add: match_at_def dropWhile_ws body_end_ok)

lemma match_at_decomp:
  assumes "match_at s = Some (b, r)"
  shows "\<exists>w. s = hdr @ w @ QUOTE # b @ QUOTE # r \<and> list_all is_ws w \<and> body_ok b"
proof -
  from assms obtain y where s: "s = hdr @ y"
    by (auto simp: match_at_def prefix_def split: if_splits)
  from assms s obtain x where dw: "dropWhile is_ws y = QUOTE # x" and be: "body_end x = Some (b, r)"
    by (auto simp: match_at_def split: if_splits list.splits)
  have y: "y = takeWhile is_ws y @ QUOTE # x"
    using dw takeWhile_dropWhile_id [of is_ws y] by simp
  have "list_all is_ws (takeWhile is_ws y)"
    by (simp add: list_all_iff) (meson set_takeWhileD)
  with s y body_end_decomp [OF be] show ?thesis
    by metis
qed

lemma match_at_append:
  "match_at s = Some (b, r) \<Longrightarrow> match_at (s @ t) = Some (b, r @ t)"
  using match_at_decomp [of s b r] match_at_ok by fastforce

lemma prefix_hdr_Cons:
  "prefix hdr (c # cs) \<longleftrightarrow> c = QUOTE \<and> prefix [0x74, 0x65, 0x78, 0x74, 0x22, 0x3A] cs"
  by (auto simp: hdr_def QUOTE_def)

lemma prefix_text_body: "prefix [0x74, 0x65, 0x78, 0x74, 0x22, 0x3A] cs \<Longrightarrow> \<not> body_ok cs"
  by (auto simp: prefix_def QUOTE_def BACKSLASH_def)

lemma no_hdr_in_body: "body_ok b \<Longrightarrow> \<not> hdr_occurs b"
proof (induction b rule: body_ok.induct)
  case 1
  then show ?case by simp
next
  case (2 c cs)
  show ?case
  proof (cases "c = BACKSLASH")
    case True
    with 2 show ?thesis
      by (auto simp: prefix_hdr_Cons QUOTE_def BACKSLASH_def dest: prefix_text_body
          split: list.splits if_splits)
  next
    case False
    with 2 show ?thesis
      by (auto simp: prefix_hdr_Cons split: if_splits)
  qed
qed

lemma hdr_occurs_append: "hdr_occurs x \<Longrightarrow> hdr_occurs (x @ y)"
proof (induction x)
  case Nil
  then show ?case by simp
next
  case (Cons c cs)
  from Cons.prems have "prefix hdr (c # cs) \<or> hdr_occurs cs" by simp
  then show ?case
  proof
    assume "prefix hdr (c # cs)"
    then have "prefix hdr ((c # cs) @ y)" by (rule prefix_prefix)
    then show ?thesis by simp
  next
    assume "hdr_occurs cs"
    then show ?thesis using Cons.IH by simp
  qed
qed

lemma hdr_occurs_prefix: "prefix x z \<Longrightarrow> hdr_occurs x \<Longrightarrow> hdr_occurs z"
  by (auto simp: prefix_def hdr_occurs_append)

lemma no_hdr_no_match: "\<not> hdr_occurs s \<Longrightarrow> regex_exec_all s = []"
proof (induction s)
  case Nil
  then show ?case by (simp add: regex_exec_all.simps)
next
  case (Cons c cs)
  then have "match_at (c # cs) = None" by (simp add: match_at_def)
  with Cons show ?case by (simp add: regex_exec_all.simps [of "c # cs"])
qed

lemma no_hdr_ws: "list_all is_ws w \<Longrightarrow> hdr_occurs (w @ x) = hdr_occurs x"
  by (induction w) (auto simp: prefix_hdr_Cons QUOTE_not_ws)

lemma no_hdr_inside:
  assumes "list_all is_ws w" and "body_ok b"
  shows "\<not> hdr_occurs (tl hdr @ w @ QUOTE # b)"
proof -
  have "\<not> hdr_occurs (QUOTE # b)"
    using assms(2) by (auto simp: prefix_hdr_Cons no_hdr_in_body dest: prefix_text_body)
  then have "\<not> hdr_occurs (w @ QUOTE # b)"
    using assms(1) by (simp add: no_hdr_ws)
  then show ?thesis
    by (simp add: hdr_def prefix_hdr_Cons QUOTE_def)
qed

lemma append_eq_prefix_cases: "p @ t = k @ r \<Longrightarrow> prefix p k \<or> prefix k p"
  by (auto simp: append_eq_append_conv2 prefix_def)

lemma runs_off:
  assumes none: "match_at (c # cs) = None" and some: "match_at ((c # cs) @ t) = Some (b, rest)"
  shows "\<not> hdr_occurs cs"
proof -
  from match_at_decomp [OF some] obtain w where
    dec: "(c # cs) @ t = (hdr @ w @ QUOTE # b @ [QUOTE]) @ rest" and
    w: "list_all is_ws w" and b: "body_ok b"
    by auto
  let ?m = "hdr @ w @ QUOTE # b"
  have k: "hdr @ w @ QUOTE # b @ [QUOTE] = ?m @ [QUOTE]"
    by simp
  have "prefix (c # cs) (?m @ [QUOTE]) \<or> prefix (?m @ [QUOTE]) (c # cs)"
    using append_eq_prefix_cases [OF dec] unfolding k .
  moreover have "\<not> prefix (?m @ [QUOTE]) (c # cs)"
  proof
    assume "prefix (?m @ [QUOTE]) (c # cs)"
    then obtain z where "c # cs = hdr @ w @ QUOTE # b @ QUOTE # z"
      by (auto simp: prefix_def)
    with match_at_ok [OF w b, of z] none show False by simp
  qed
  ultimately have pk: "prefix (c # cs) (?m @ [QUOTE])"
    by blast
  have "c # cs = ?m @ [QUOTE] \<or> prefix (c # cs) ?m"
    using pk by (rule prefix_snoc [THEN iffD1])
  moreover have "c # cs \<noteq> ?m @ [QUOTE]"
  proof
    assume "c # cs = ?m @ [QUOTE]"
    then have "c # cs = hdr @ w @ QUOTE # b @ QUOTE # []" by simp
    with match_at_ok [OF w b, of "[]"] none show False by simp
  qed
  ultimately have "prefix (c # cs) ?m"
    by blast
  then have "prefix cs (tl ?m)"
    by (cases ?m) (auto simp: hdr_def)
  moreover have "tl ?m = tl hdr @ w @ QUOTE # b"
    by (simp add: hdr_def)
  ultimately have "prefix cs (tl hdr @ w @ QUOTE # b)"
    by simp
  then show ?thesis
    using no_hdr_inside [OF w b] hdr_occurs_prefix by blast
qed

lemma regex_exec_all_Cons:
  "regex_exec_all (c # cs) =
     (case match_at (c # cs) of
        Some (b, rest) \<Rightarrow> b # regex_exec_all rest
      | None \<Rightarrow> regex_exec_all cs)"
  by (subst regex_exec_all.simps) (simp split: option.splits)

lemma match_at_shorter: "match_at s = Some (b, rest) \<Longrightarrow> length rest < length s"
  using match_at_decomp [of s b rest] by auto

lemma regex_exec_all_prefix: "prefix (regex_exec_all p) (regex_exec_all (p @ t))"
proof (induction "length p" arbitrary: p rule: less_induct)
  case less
  show ?case
  proof (cases p)
    case Nil
    then show ?thesis by (simp add: regex_exec_all.simps [of "[]"])
  next
    case (Cons c cs)
    show ?thesis
    proof (cases "match_at (c # cs)")
      case (Some m)
      obtain b rest where m: "m = (b, rest)" by (cases m)
      from Some m have here: "match_at (c # cs) = Some (b, rest)" by simp
      then have there: "match_at (c # cs @ t) = Some (b, rest @ t)"
        using match_at_append [of "c # cs" b rest t] by simp
      have "length rest < length p"
        using match_at_shorter [OF here] Cons by simp
      then have "prefix (regex_exec_all rest) (regex_exec_all (rest @ t))"
        by (rule less)
      then show ?thesis
        unfolding Cons append_Cons regex_exec_all_Cons [of c cs]
          regex_exec_all_Cons [of c "cs @ t"] here there
        by simp
    next
      case None
      have ih: "prefix (regex_exec_all cs) (regex_exec_all (cs @ t))"
        by (rule less) (simp add: Cons)
      show ?thesis
      proof (cases "match_at (c # cs @ t)")
        case none': None
        show ?thesis
          unfolding Cons append_Cons regex_exec_all_Cons [of c cs]
            regex_exec_all_Cons [of c "cs @ t"] None none'
          using ih by simp
      next
        case (Some m)
        obtain b rest where "m = (b, rest)" by (cases m)
        with Some None have "\<not> hdr_occurs cs"
          using runs_off [of c cs t b rest] by simp
        then have "regex_exec_all cs = []" by (rule no_hdr_no_match)
        then show ?thesis
          unfolding Cons regex_exec_all_Cons [of c cs] None by simp
      qed
    qed
  qed
qed

lemma concat_map_prefix: "prefix xs ys \<Longrightarrow> prefix (concat (map f xs)) (concat (map f ys))"
  by (auto simp: prefix_def)

lemma extractedText_prefix: "prefix (extractedText p) (extractedText (p @ t))"
  unfolding extractedText_def by (rule concat_map_prefix) (rule regex_exec_all_prefix)

section \<open>Properties of the loop over the chunks\<close>

lemma decode_append:
  "decode d (xs @ ys) =
     (let (d1, out1) = decode d xs; (d2, out2) = decode d1 ys in (d2, out1 @ out2))"
  by (induction xs arbitrary: d) (auto simp: Let_def split: prod.splits)

lemma on_read_buffer:
  "buffer (on_read st v) = buffer st @ snd (decode (decoder st) v)"
  and on_read_decoder: "decoder (on_read st v) = fst (decode (decoder st) v)"
  by (auto simp: on_read_def Let_def split: prod.splits)

lemma on_read_fullText:
  assumes "fullText st = extractedText (buffer st)"
  shows "fullText (on_read st v) = extractedText (buffer (on_read st v))"
proof -
  obtain d chunk where dc: "decode (decoder st) v = (d, chunk)" by (cases "decode (decoder st) v")
  let ?new = "extractedText (buffer st @ chunk)"
  have pre: "prefix (fullText st) ?new"
    unfolding assms by (rule extractedText_prefix)
  show ?thesis
  proof (cases "length ?new > length (fullText st)")
    case True
    then show ?thesis by (simp add: on_read_def dc Let_def)
  next
    case False
    with pre have "fullText st = ?new"
      by (metis append_eq_conv_conj linorder_not_less prefix_def take_all)
    with False show ?thesis by (simp add: on_read_def dc Let_def)
  qed
qed

lemma foldl_on_read:
  assumes "fullText st = extractedText (buffer st)"
  shows "fullText (foldl on_read st chunks) = extractedText (buffer (foldl on_read st chunks))
    \<and> buffer (foldl on_read st chunks) = buffer st @ snd (decode (decoder st) (concat chunks))
    \<and> decoder (foldl on_read st chunks) = fst (decode (decoder st) (concat chunks))"
  using assms
proof (induction chunks arbitrary: st)
  case Nil
  then show ?case by simp
next
  case (Cons v chunks)
  note IH = Cons.IH [OF on_read_fullText [OF Cons.prems]]
  show ?case
    using IH [of v]
    by (simp add: on_read_buffer on_read_decoder decode_append Let_def split: prod.splits)
qed

lemma callGeminiApi_stream_eq:
  "callGeminiApi_stream chunks = extractedText (snd (decode new_TextDecoder (concat chunks)))"
proof -
  have "fullText stream_start = extractedText (buffer stream_start)"
    by (simp add: stream_start_def extractedText_def regex_exec_all.simps [of "[]"])
  from foldl_on_read [OF this, of chunks] show ?thesis
    by (simp add: callGeminiApi_stream_def stream_run_def stream_start_def)
qed

lemma on_read_calls:
  "onChunk_calls (on_read st v) = onChunk_calls st \<and> fullText (on_read st v) = fullText st
   \<or> onChunk_calls (on_read st v) = onChunk_calls st @ [fullText (on_read st v)]
     \<and> fullText (on_read st v) = extractedText (buffer (on_read st v))
     \<and> length (fullText st) < length (fullText (on_read st v))"
  by (auto simp: on_read_def Let_def split: prod.splits)

text \<open>
  Claim C5: over the chunks of one stream, the texts passed to \<^verbatim>\<open>onChunk\<close> have
  lengths that never decrease; indeed each is strictly longer than the one before it (the
  first is not empty), and one turn of the loop either makes no call and leaves the
  accumulated text as it is, or makes one call, with the new candidate text, which is
  strictly longer than the accumulated text before.
\<close>

theorem onChunk_lengths_increase:
  "sorted (map length (onChunk_calls (stream_run chunks)))
   \<and> sorted_wrt (\<lambda>a b. length a < length b) ([] # onChunk_calls (stream_run chunks))
   \<and> (onChunk_calls (on_read st v) = onChunk_calls st \<and> fullText (on_read st v) = fullText st
      \<or> onChunk_calls (on_read st v) = onChunk_calls st @ [fullText (on_read st v)]
        \<and> fullText (on_read st v) = extractedText (buffer (on_read st v))
        \<and> length (fullText st) < length (fullText (on_read st v)))"
proof -
  have inv: "sorted_wrt (\<lambda>a b. length a < length b) ([] # onChunk_calls (foldl on_read s cs))
      \<and> (\<forall>t \<in> set (onChunk_calls (foldl on_read s cs)).
            length t \<le> length (fullText (foldl on_read s cs)))"
    if "sorted_wrt (\<lambda>a b. length a < length b) ([] # onChunk_calls s)
      \<and> (\<forall>t \<in> set (onChunk_calls s). length t \<le> length (fullText s))" for s cs
    using that
  proof (induction cs arbitrary: s)
    case Nil
    then show ?case by simp
  next
    case (Cons c cs)
    have "sorted_wrt (\<lambda>a b. length a < length b) ([] # onChunk_calls (on_read s c))
      \<and> (\<forall>t \<in> set (onChunk_calls (on_read s c)). length t \<le> length (fullText (on_read s c)))"
      using Cons.prems on_read_calls [of s c]
      by (fastforce simp: sorted_wrt_append)
    from Cons.IH [OF this] show ?case by simp
  qed
  have start: "sorted_wrt (\<lambda>a b. length a < length b) ([] # onChunk_calls stream_start)
      \<and> (\<forall>t \<in> set (onChunk_calls stream_start). length t \<le> length (fullText stream_start))"
    by (simp add: stream_start_def)
  have strict: "sorted_wrt (\<lambda>a b. length a < length b) ([] # onChunk_calls (stream_run chunks))"
    using inv [OF start, of chunks] by (simp add: stream_run_def)
  then have "sorted_wrt (\<lambda>a b. length a \<le> length b) (onChunk_calls (stream_run chunks))"
    by (auto intro: sorted_wrt_mono_rel [of _ "\<lambda>a b. length a < length b"])
  then have "sorted (map length (onChunk_calls (stream_run chunks)))"
    by (simp add: sorted_map)
  with strict on_read_calls [of st v] show ?thesis by blast
qed

text \<open>
  Claim C7: the text returned at the end of the stream depends only on the bytes of the
  body, not on where the body is cut into chunks, also when a cut falls inside the bytes
  of one character.
\<close>

theorem stream_chunking_independent:
  assumes "concat chunks = concat chunks'"
  shows "callGeminiApi_stream chunks = callGeminiApi_stream chunks'"
  by (simp add: callGeminiApi_stream_eq assms)

lemmas stream_defs = callGeminiApi_stream_def stream_run_def stream_start_def on_read_def Let_def
  extractedText_def parsed_def regex_exec_all.simps match_at_def hdr_def is_ws_def
  is_line_terminator_def QUOTE_def BACKSLASH_def hex4_def hex_digit_def simple_escape_def
  bytes_def asc_def new_TextDecoder_def decode_byte_def lead_byte_def emit_def reset_def
  utf16_def dq_def

theorem stream_chunking_independent_witness:
  "concat euro_split = concat euro_whole
   \<and> callGeminiApi_stream euro_split = callGeminiApi_stream euro_whole
   \<and> callGeminiApi_stream euro_split = [0x20AC]"
proof -
  have same: "concat euro_split = concat euro_whole"
    by (simp add: euro_split_def euro_whole_def)
  have euro: "callGeminiApi_stream euro_split = [0x20AC]"
    by (simp add: euro_split_def stream_defs)
  from same euro stream_chunking_independent [OF same] show ?thesis by blast
qed

section \<open>Streams of text fields\<close>

lemma hdr_overlap:
  assumes "\<not> hdr_occurs (c # f)"
  shows "\<not> prefix hdr ((c # f) @ hdr @ x)"
proof
  assume p: "prefix hdr ((c # f) @ hdr @ x)"
  from assms have np: "\<not> prefix hdr (c # f)" by simp
  show False
  proof (cases f)
    case Nil
    with p show ?thesis by (simp add: hdr_def)
  next
    case f1: (Cons c1 f1)
    show ?thesis
    proof (cases f1)
      case Nil
      with p f1 show ?thesis by (simp add: hdr_def)
    next
      case f2: (Cons c2 f2)
      show ?thesis
      proof (cases f2)
        case Nil
        with p f1 f2 show ?thesis by (simp add: hdr_def)
      next
        case f3: (Cons c3 f3)
        show ?thesis
        proof (cases f3)
          case Nil
          with p f1 f2 f3 show ?thesis by (simp add: hdr_def)
        next
          case f4: (Cons c4 f4)
          show ?thesis
          proof (cases f4)
            case Nil
            with p f1 f2 f3 f4 show ?thesis by (simp add: hdr_def)
          next
            case f5: (Cons c5 f5)
            show ?thesis
            proof (cases f5)
              case Nil
              with p f1 f2 f3 f4 f5 show ?thesis by (simp add: hdr_def)
            next
              case f6: (Cons c6 f6)
              with p np f1 f2 f3 f4 f5 show ?thesis by (simp add: hdr_def)
            qed
          qed
        qed
      qed
    qed
  qed
qed

lemma regex_exec_all_field:
  assumes "\<not> hdr_occurs f" and "list_all is_ws w" and "body_ok b"
  shows "regex_exec_all (f @ hdr @ w @ QUOTE # b @ QUOTE # rest) = b # regex_exec_all rest"
  using assms(1)
proof (induction f)
  case Nil
  have "hdr @ w @ QUOTE # b @ QUOTE # rest \<noteq> []" by (simp add: hdr_def)
  then show ?case
    by (subst regex_exec_all.simps) (simp add: match_at_ok [OF assms(2,3)])
next
  case (Cons c f)
  have "match_at ((c # f) @ hdr @ w @ QUOTE # b @ QUOTE # rest) = None"
    using hdr_overlap [OF Cons.prems] by (simp add: match_at_def)
  moreover from Cons have "regex_exec_all (f @ hdr @ w @ QUOTE # b @ QUOTE # rest) = b # regex_exec_all rest"
    by simp
  ultimately show ?case
    by (simp add: regex_exec_all_Cons)
qed

lemma regex_exec_all_render:
  "text_fields_ok segs end_filler \<Longrightarrow>
     regex_exec_all (render segs end_filler) = map (\<lambda>(f, w, b). b) segs"
proof (induction segs)
  case Nil
  then show ?case by (simp add: text_fields_ok_def no_hdr_no_match)
next
  case (Cons seg segs)
  obtain f w b where seg: "seg = (f, w, b)" by (cases seg)
  from Cons.prems seg have ok: "\<not> hdr_occurs f" "list_all is_ws w" "body_ok b"
    and rest: "text_fields_ok segs end_filler"
    by (auto simp: text_fields_ok_def)
  show ?case
    using regex_exec_all_field [OF ok] Cons.IH [OF rest] by (simp add: seg)
qed

text \<open>
  Claim C1, as the code has it: for every complete stream whose decoded text consists of
  text fields written \<^verbatim>\<open>"text":\<close>, white space, and a quoted body, where a body is
  made of characters other than the quote and the backslash and of pairs of a backslash
  and a character that is not a line terminator (line feed, carriage return, \<open>U+2028\<close>,
  \<open>U+2029\<close>), with \<^verbatim>\<open>"text":\<close> occurring nowhere in the text around the fields, and
  for every way of cutting it into chunks, the text returned at the end of the stream is
  the concatenation, in document order, of the bodies unescaped as JSON string literals, a
  body that is no JSON string literal adding nothing.
\<close>

theorem stream_text_fields:
  assumes "text_fields_ok segs end_filler"
    and "snd (decode new_TextDecoder (concat chunks)) = render segs end_filler"
  shows "callGeminiApi_stream chunks = concat (map (\<lambda>(f, w, b). parsed b) segs)"
proof -
  have eq: "parsed \<circ> (\<lambda>(f, w, b). b) = (\<lambda>(f, w, b). parsed b)"
    by (auto simp: fun_eq_iff)
  show ?thesis
    by (simp only: callGeminiApi_stream_eq assms(2) extractedText_def
        regex_exec_all_render [OF assms(1)] map_map eq)
qed

theorem stream_text_fields_witness:
  "text_fields_ok sample_segs (asc ''}]'')
   \<and> snd (decode new_TextDecoder (concat sample_stream)) = render sample_segs (asc ''}]'')
   \<and> callGeminiApi_stream sample_stream = concat (map (\<lambda>(f, w, b). parsed b) sample_segs)
   \<and> concat (map (\<lambda>(f, w, b). parsed b) sample_segs) = asc ''Hi'' @ [0x0A] @ asc ''you''"
proof -
  have ok: "text_fields_ok sample_segs (asc ''}]'')"
    by (simp add: text_fields_ok_def sample_segs_def asc_def hdr_def is_ws_def
        is_line_terminator_def QUOTE_def BACKSLASH_def)
  have dec: "snd (decode new_TextDecoder (concat sample_stream)) =
      render sample_segs (asc ''}]'')"
    by (simp add: sample_stream_def sample_segs_def stream_defs)
  have val: "concat (map (\<lambda>(f, w, b). parsed b) sample_segs) = asc ''Hi'' @ [0x0A] @ asc ''you''"
    by (simp add: sample_segs_def stream_defs)
  from ok dec val stream_text_fields [OF ok dec] show ?thesis by blast
qed

text \<open>
  Why a backslash before a line terminator is excluded from the bodies: \<^verbatim>\<open>.\<close> does not
  match a line terminator, so the attempt at the first \<^verbatim>\<open>"text":\<close> fails, and the scan
  finds the match that starts at the quote after the second backslash.
\<close>

lemma stream_backslash_linefeed: "callGeminiApi_stream linefeed_chunks = asc ''c''"
  by (simp add: linefeed_chunks_def stream_defs)

text \<open>
  Claim C1 as stated fails: \<^verbatim>\<open>[{"text" : "a"}]\<close> is a JSON array of one object with a
  \<^verbatim>\<open>text\<close> field whose value is \<^verbatim>\<open>a\<close>; the pattern wants the colon right after the
  key, finds no match, and the text returned is empty.
\<close>

theorem stream_spaced_colon_missed:
  "callGeminiApi_stream spaced_chunks = [] \<and> callGeminiApi_stream spaced_chunks \<noteq> asc ''a''"
proof -
  have "callGeminiApi_stream spaced_chunks = []"
    by (simp add: spaced_chunks_def stream_defs)
  then show ?thesis by (simp add: asc_def)
qed

text \<open>
  Claim C6 as stated fails: the first chunk of the claim ends with a quote, so
  \<^verbatim>\<open>"text":"Hel"\<close> is a complete match, the second chunk adds none, and the text
  returned is \<^verbatim>\<open>Hel\<close>.
\<close>

theorem stream_claim_chunks_Hel:
  "callGeminiApi_stream claim_chunks = asc ''Hel''
   \<and> callGeminiApi_stream claim_chunks \<noteq> asc ''Hello''"
proof -
  have "callGeminiApi_stream claim_chunks = asc ''Hel''"
    by (simp add: claim_chunks_def stream_defs)
  then show ?thesis by (simp add: asc_def)
qed

text \<open>
  Claim C6, as the code has it: for the chunks \<^verbatim>\<open>[{"text":"Hel\<close> and \<^verbatim>\<open>lo"}]\<close>, a
  body split inside the string, the text returned is \<^verbatim>\<open>Hello\<close>.
\<close>

theorem stream_split_chunks_Hello: "callGeminiApi_stream split_chunks = asc ''Hello''"
  by (simp add: split_chunks_def stream_defs)

section \<open>Properties of the non-streaming path\<close>

lemma callGeminiApi_json_TypeError:
  "first_candidate_text data = Inl e \<Longrightarrow> callGeminiApi_json data = JString []"
  by (simp add: callGeminiApi_json_def)

text \<open>
  Claim C8 at a response whose first part has no \<^verbatim>\<open>text\<close> property: every step of
  \<^verbatim>\<open>data.candidates[0].content.parts[0].text\<close> but the last reads an object, nothing is
  thrown, and the value returned is \<^verbatim>\<open>undefined\<close>, not the empty string.
\<close>

theorem callGeminiApi_json_leaf_missing:
  "callGeminiApi_json leaf_missing = JUndefined \<and> callGeminiApi_json leaf_missing \<noteq> JString []"
  by (simp add: callGeminiApi_json_def first_candidate_text_def then_get_def leaf_missing_def
      asc_def)

end
